theory Spec2Isabelle
  imports Main "HOL-Library.Char_ord" "HOL-Library.Multiset"
begin

section \<open>Kaprekar's constant explorer: the validator and the engine\<close>

text \<open>
  A shallow embedding of \<^verbatim>\<open>validate_input\<close>, \<^verbatim>\<open>kaprekar_step\<close> and
  \<^verbatim>\<open>explore_kaprekar\<close> of \<^verbatim>\<open>kaprekar_explorer.py\<close>. Python's unbounded integers are
  \<^typ>\<open>int\<close>. A Python string is a \<^typ>\<open>string\<close>, one \<^typ>\<open>char\<close> per code point, so
  the texts covered are those over the code points 0 to 255. The progress display of
  \<^verbatim>\<open>explore_kaprekar\<close> only prints, and is left out.
\<close>

subsection \<open>The Python builtins the code calls\<close>

datatype py_error = ValueError

text \<open>
  The characters \<^verbatim>\<open>int()\<close> skips at both ends of its argument: tab, line feed, vertical
  tab, form feed, carriage return, space, and in a non-ASCII text also U+0085 and U+00A0.
\<close>

definition is_space :: "char \<Rightarrow> bool" where
  "is_space c = (of_char c \<in> {9, 10, 11, 12, 13, 32, 133, 160 :: nat})"

definition is_digit :: "char \<Rightarrow> bool" where
  "is_digit c = (48 \<le> (of_char c :: nat) \<and> (of_char c :: nat) \<le> 57)"

definition digit_val :: "char \<Rightarrow> nat" where
  "digit_val c = of_char c - 48"

definition digit_char :: "nat \<Rightarrow> char" where
  "digit_char d = char_of (48 + d)"

text \<open>
  The digits of a literal after its first one: \<open>acc\<close> is the value read so far and
  \<open>prev\<close> the character before. Single underscores may separate digits; two in a row,
  or one at the end, are rejected.
\<close>

fun scan_digits :: "nat \<Rightarrow> char \<Rightarrow> string \<Rightarrow> nat option" where
  "scan_digits acc prev [] = (if prev = CHR ''_'' then None else Some acc)"
| "scan_digits acc prev (c # cs) =
     (if c = CHR ''_'' then (if prev = CHR ''_'' then None else scan_digits acc c cs)
      else if is_digit c then scan_digits (acc * 10 + digit_val c) c cs
      else None)"

definition strip :: "string \<Rightarrow> string" where
  "strip s = rev (dropWhile is_space (rev (dropWhile is_space s)))"

text \<open>
  \<^verbatim>\<open>int(s)\<close> for a string \<open>s\<close> in base 10: \<open>None\<close> is the \<^verbatim>\<open>ValueError\<close> it raises.
  The interpreter's limit on the number of digits of a literal (4300 by default from
  Python 3.11 on, and configurable) is not part of the model.
\<close>

definition py_int :: "string \<Rightarrow> int option" where
  "py_int s =
     (let t = strip s;
          neg = (t \<noteq> [] \<and> hd t = CHR ''-'');
          body = (if t \<noteq> [] \<and> (hd t = CHR ''+'' \<or> hd t = CHR ''-'') then tl t else t)
      in case body of
           [] \<Rightarrow> None
         | c # cs \<Rightarrow>
             if is_digit c then
               (case scan_digits (digit_val c) c cs of
                  None \<Rightarrow> None
                | Some v \<Rightarrow> Some (if neg then - int v else int v))
             else None)"

fun str_nat :: "nat \<Rightarrow> string" where
  "str_nat n =
     (if n < 10 then [digit_char n] else str_nat (n div 10) @ [digit_char (n mod 10)])"

declare str_nat.simps [simp del]

text \<open>\<^verbatim>\<open>str(n)\<close> for an integer \<open>n\<close>.\<close>

definition py_str :: "int \<Rightarrow> string" where
  "py_str n = (if n < 0 then CHR ''-'' # str_nat (nat (- n)) else str_nat (nat n))"

text \<open>\<^verbatim>\<open>s.zfill(width)\<close>: zeros go after a leading sign.\<close>

definition zfill :: "nat \<Rightarrow> string \<Rightarrow> string" where
  "zfill width s =
     (if width \<le> length s then s
      else
        let pad = replicate (width - length s) CHR ''0'' in
        case s of
          [] \<Rightarrow> pad
        | c # cs \<Rightarrow> if c = CHR ''+'' \<or> c = CHR ''-'' then c # pad @ cs else pad @ s)"

text \<open>
  \<^verbatim>\<open>sorted(s)\<close> and \<^verbatim>\<open>sorted(s, reverse=True)\<close> on the characters of a string, ordered
  by code point. Equal characters are indistinguishable, so the stable descending sort is
  the reverse of the ascending one.
\<close>

definition py_sorted :: "string \<Rightarrow> string" where
  "py_sorted s = sort s"

definition py_sorted_reverse :: "string \<Rightarrow> string" where
  "py_sorted_reverse s = rev (sort s)"

subsection \<open>The validator\<close>

definition NotANumber :: string where
  "NotANumber = ''Input must be a valid number''"

definition WrongDigitCount :: string where
  "WrongDigitCount = ''Number must be exactly 4 digits''"

definition RepeatedDigits :: string where
  "RepeatedDigits = ''All 4 digits must be different (no repeated digits)''"

text \<open>The result is the triple \<^verbatim>\<open>(is_valid, error_message, number)\<close> of the source.\<close>

definition validate_input :: "string \<Rightarrow> bool \<times> string option \<times> int option" where
  "validate_input number_str =
     (case py_int number_str of
        None \<Rightarrow> (False, Some NotANumber, None)
      | Some number \<Rightarrow>
          if number < 1000 \<or> number > 9999 then (False, Some WrongDigitCount, None)
          else
            let digits = zfill 4 (py_str number) in
            if card (set digits) \<noteq> 4 then (False, Some RepeatedDigits, None)
            else (True, None, Some number))"

subsection \<open>The engine\<close>

definition kaprekar_step :: "int \<Rightarrow> py_error + int" where
  "kaprekar_step number =
     (let number_str = zfill 4 (py_str number);
          digits_desc = py_sorted_reverse number_str
      in case py_int digits_desc of
           None \<Rightarrow> Inl ValueError
         | Some A \<Rightarrow>
             (let digits_asc = py_sorted number_str
              in (case py_int digits_asc of
                    None \<Rightarrow> Inl ValueError
                  | Some B \<Rightarrow> Inr (A - B))))"

text \<open>
  The \<^verbatim>\<open>while\<close> loop of \<^verbatim>\<open>explore_kaprekar\<close>, on the variables \<open>sequence\<close>,
  \<open>current_number\<close> and \<open>steps\<close>; the result is their value when the loop is left.
\<close>

function explore_loop ::
  "int \<Rightarrow> int list \<Rightarrow> int \<Rightarrow> int \<Rightarrow> py_error + (int list \<times> int \<times> int)" where
  "explore_loop max_steps sequence current_number steps =
     (if steps < max_steps then
        if current_number = 6174 then Inr (sequence, current_number, steps)
        else
          (case kaprekar_step current_number of
             Inl e \<Rightarrow> Inl e
           | Inr next_number \<Rightarrow>
               explore_loop max_steps (sequence @ [next_number]) next_number (steps + 1))
      else Inr (sequence, current_number, steps))"
  by pat_completeness auto
termination
  by (relation "measure (\<lambda>(max_steps, sequence, current_number, steps). nat (max_steps - steps))")
    auto

declare explore_loop.simps [simp del]

text \<open>The result is the triple \<^verbatim>\<open>(steps, sequence, reached_constant)\<close> of the source.\<close>

definition explore_kaprekar :: "int \<Rightarrow> int \<Rightarrow> py_error + (int \<times> int list \<times> bool)" where
  "explore_kaprekar starting_number max_steps =
     (case explore_loop max_steps [starting_number] starting_number 0 of
        Inl e \<Rightarrow> Inl e
      | Inr (sequence, current_number, steps) \<Rightarrow>
          Inr (steps, sequence, current_number = 6174))"

subsection \<open>Decimal digits\<close>

text \<open>
  The four decimal digits of a number below 10000, most significant first, and the number
  a list of digits denotes. They state what the string operations of the code compute.
\<close>

definition digits4 :: "nat \<Rightarrow> nat list" where
  "digits4 m = [m div 1000, m div 100 mod 10, m div 10 mod 10, m mod 10]"

definition num_of :: "nat list \<Rightarrow> nat" where
  "num_of ds = foldl (\<lambda>a d. a * 10 + d) 0 ds"

section \<open>The string operations on digits\<close>

lemma replicate_small: "replicate 3 x = [x, x, x]" "replicate 2 x = [x, x]" "replicate 1 x = [x]"
  by (simp_all add: numeral_3_eq_3 numeral_2_eq_2)


lemma of_char_digit_char: "d < 10 \<Longrightarrow> of_char (digit_char d) = 48 + d"
  by (simp add: digit_char_def)

lemma digit_char_zero: "digit_char 0 = CHR ''0''"
  by (simp add: digit_char_def char_of_eq_iff)

lemma is_digit_digit_char: "d < 10 \<Longrightarrow> is_digit (digit_char d)"
  by (simp add: is_digit_def of_char_digit_char)

lemma digit_val_digit_char: "d < 10 \<Longrightarrow> digit_val (digit_char d) = d"
  by (simp add: digit_val_def of_char_digit_char)

lemma not_space_digit_char: "d < 10 \<Longrightarrow> \<not> is_space (digit_char d)"
  by (simp add: is_space_def of_char_digit_char)

lemma digit_char_neq:
  assumes "d < 10"
  shows "digit_char d \<noteq> CHR ''+''" "digit_char d \<noteq> CHR ''-''" "digit_char d \<noteq> CHR ''_''"
proof -
  have "of_char (digit_char d) \<noteq> (of_char CHR ''+'' :: nat)"
    "of_char (digit_char d) \<noteq> (of_char CHR ''-'' :: nat)"
    "of_char (digit_char d) \<noteq> (of_char CHR ''_'' :: nat)"
    using assms by (simp_all add: of_char_digit_char)
  then show "digit_char d \<noteq> CHR ''+''" "digit_char d \<noteq> CHR ''-''" "digit_char d \<noteq> CHR ''_''"
    by auto
qed

lemma digit_char_le_iff: "a < 10 \<Longrightarrow> b < 10 \<Longrightarrow> digit_char a \<le> digit_char b \<longleftrightarrow> a \<le> b"
  by (simp add: less_eq_char_def of_char_digit_char)

lemma inj_on_digit_char: "inj_on digit_char {..<10}"
proof (rule inj_onI)
  fix a b :: nat
  assume "a \<in> {..<10}" "b \<in> {..<10}" "digit_char a = digit_char b"
  then have "(of_char (digit_char a) :: nat) = of_char (digit_char b)" "a < 10" "b < 10"
    by simp_all
  then show "a = b"
    by (simp add: of_char_digit_char)
qed

lemma scan_digits_map:
  "\<forall>d\<in>set ds. d < 10 \<Longrightarrow> prev \<noteq> CHR ''_'' \<Longrightarrow>
     scan_digits acc prev (map digit_char ds) = Some (foldl (\<lambda>a d. a * 10 + d) acc ds)"
proof (induction ds arbitrary: acc prev)
  case Nil
  then show ?case by simp
next
  case (Cons d ds)
  then have d: "d < 10" by simp
  from Cons show ?case
    by (simp add: digit_char_neq [OF d] is_digit_digit_char [OF d] digit_val_digit_char [OF d])
qed

lemma strip_digits:
  assumes "\<forall>d\<in>set ds. d < 10"
  shows "strip (map digit_char ds) = map digit_char ds"
proof (cases "ds = []")
  case True
  then show ?thesis by (simp add: strip_def)
next
  case False
  let ?s = "map digit_char ds"
  have ne: "?s \<noteq> []" using False by simp
  have "hd ?s \<in> set ?s" "last ?s \<in> set ?s" using ne by (simp_all del: set_map)
  then have "\<not> is_space (hd ?s)" "\<not> is_space (last ?s)"
    using assms by (auto simp: not_space_digit_char)
  then have a: "dropWhile is_space ?s = ?s" and b: "dropWhile is_space (rev ?s) = rev ?s"
    using ne by (simp_all add: dropWhile_eq_self_iff hd_rev)
  show ?thesis
    by (simp only: strip_def a b rev_rev_ident)
qed

lemma py_int_digits:
  assumes "\<forall>d\<in>set ds. d < 10" "ds \<noteq> []"
  shows "py_int (map digit_char ds) = Some (int (num_of ds))"
proof -
  obtain d ds' where ds: "ds = d # ds'" using assms(2) by (cases ds) auto
  then have d: "d < 10" and ds': "\<forall>d\<in>set ds'. d < 10" using assms(1) by simp_all
  have sc: "scan_digits (digit_val (digit_char d)) (digit_char d) (map digit_char ds')
        = Some (foldl (\<lambda>a d. a * 10 + d) d ds')"
    using scan_digits_map [OF ds' digit_char_neq(3) [OF d]] by (simp add: digit_val_digit_char [OF d])
  have st: "strip (digit_char d # map digit_char ds') = digit_char d # map digit_char ds'"
    using strip_digits [OF assms(1)] ds by simp
  show ?thesis
    unfolding py_int_def ds
    by (simp add: st Let_def digit_char_neq [OF d] is_digit_digit_char [OF d] sc num_of_def)
qed

lemma sort_digit_chars:
  assumes "\<forall>d\<in>set ds. d < 10"
  shows "sort (map digit_char ds) = map digit_char (sort ds)"
proof (rule properties_for_sort)
  show "mset (map digit_char (sort ds)) = mset (map digit_char ds)"
    by simp
  have "sorted_wrt (\<lambda>x y. digit_char x \<le> digit_char y) (sort ds)"
  proof (rule sorted_wrt_mono_rel [of _ "(\<le>)"])
    show "sorted_wrt (\<le>) (sort ds)" by simp
  next
    fix x y assume "x \<in> set (sort ds)" "y \<in> set (sort ds)" "x \<le> y"
    then show "digit_char x \<le> digit_char y"
      using assms by (simp add: digit_char_le_iff)
  qed
  then show "sorted (map digit_char (sort ds))"
    by (simp add: sorted_map)
qed

lemma str_nat_4digits:
  assumes "1000 \<le> m" "m < 10000"
  shows "str_nat m = map digit_char (digits4 m)"
proof -
  have a: "m div 10 \<ge> 10" "m div 10 div 10 \<ge> 10" "m div 10 div 10 div 10 < 10"
    using assms by simp_all
  then have "str_nat m = [digit_char (m div 10 div 10 div 10), digit_char (m div 10 div 10 mod 10),
      digit_char (m div 10 mod 10), digit_char (m mod 10)]"
    using assms by (simp add: str_nat.simps [of m] str_nat.simps [of "m div 10"]
        str_nat.simps [of "m div 10 div 10"] str_nat.simps [of "m div 10 div 10 div 10"])
  then show ?thesis
    by (simp add: digits4_def div_mult2_eq [symmetric])
qed

lemma str_nat_4:
  assumes "m < 10000"
  shows "zfill 4 (str_nat m) = map digit_char (digits4 m)"
proof -
  consider "m < 10" | "10 \<le> m" "m < 100" | "100 \<le> m" "m < 1000" | "1000 \<le> m"
    by linarith
  then show ?thesis
  proof cases
    case 1
    then have "str_nat m = [digit_char m]" by (simp add: str_nat.simps)
    then show ?thesis using 1
      by (simp add: zfill_def digits4_def digit_char_neq digit_char_zero replicate_small)
  next
    case 2
    then have "m div 10 < 10" by simp
    then have "str_nat m = [digit_char (m div 10), digit_char (m mod 10)]"
      using 2 by (simp add: str_nat.simps [of m] str_nat.simps [of "m div 10"])
    then show ?thesis using 2 \<open>m div 10 < 10\<close>
      by (simp add: zfill_def digits4_def digit_char_neq digit_char_zero replicate_small)
  next
    case 3
    then have a: "m div 10 \<ge> 10" "m div 10 div 10 < 10" by simp_all
    then have "str_nat m =
        [digit_char (m div 10 div 10), digit_char (m div 10 mod 10), digit_char (m mod 10)]"
      using 3 by (simp add: str_nat.simps [of m] str_nat.simps [of "m div 10"]
          str_nat.simps [of "m div 10 div 10"])
    then show ?thesis using 3 a
      by (simp add: zfill_def digits4_def digit_char_neq digit_char_zero replicate_small
          div_mult2_eq [symmetric])
  next
    case 4
    then have "str_nat m = map digit_char (digits4 m)"
      using assms by (rule str_nat_4digits)
    then show ?thesis
      by (simp add: zfill_def digits4_def)
  qed
qed

lemma zfill_py_str:
  assumes "0 \<le> n" "n \<le> 9999"
  shows "zfill 4 (py_str n) = map digit_char (digits4 (nat n))"
proof -
  have "nat n < 10000" using assms by simp
  then show ?thesis
    using assms(1) by (simp add: py_str_def str_nat_4)
qed

section \<open>Arithmetic of the sorted digits\<close>

lemma num_of_snoc: "num_of (ds @ [d]) = num_of ds * 10 + d"
  by (simp add: num_of_def)

lemma num_of_Cons: "num_of (d # ds) = d * 10 ^ length ds + num_of ds"
proof (induction ds rule: rev_induct)
  case Nil
  show ?case by (simp add: num_of_def)
next
  case (snoc x xs)
  have "num_of (d # xs @ [x]) = num_of ((d # xs) @ [x])" by simp
  also have "\<dots> = num_of (d # xs) * 10 + x" by (rule num_of_snoc)
  finally show ?case
    by (simp add: snoc.IH num_of_snoc algebra_simps)
qed

lemma num_of_less: "\<forall>d\<in>set ds. d < 10 \<Longrightarrow> num_of ds < 10 ^ length ds"
proof (induction ds rule: rev_induct)
  case Nil
  show ?case by (simp add: num_of_def)
next
  case (snoc x xs)
  then have "num_of xs < 10 ^ length xs" "x < 10" by simp_all
  then have "num_of xs * 10 + x < 10 ^ length xs * 10" by linarith
  then show ?case by (simp add: num_of_snoc mult.commute)
qed

lemma repunit_bound:
  "\<forall>y\<in>set ys. x \<le> y \<Longrightarrow> x * 10 ^ length ys \<le> 9 * num_of ys + x"
proof (induction ys)
  case Nil
  show ?case by (simp add: num_of_def)
next
  case (Cons y ys)
  then have ih: "x * 10 ^ length ys \<le> 9 * num_of ys + x" and xy: "x \<le> y" by simp_all
  have "x * 10 ^ length ys \<le> y * 10 ^ length ys" using xy by simp
  then have "10 * (x * 10 ^ length ys) \<le> 9 * (y * 10 ^ length ys) + (9 * num_of ys + x)"
    using ih by linarith
  then show ?case by (simp add: num_of_Cons algebra_simps)
qed

lemma num_of_sorted_le_rev: "sorted ds \<Longrightarrow> num_of ds \<le> num_of (rev ds)"
proof (induction ds)
  case Nil
  show ?case by simp
next
  case (Cons x xs)
  then have ih: "num_of xs \<le> num_of (rev xs)" and le: "\<forall>y\<in>set (rev xs). x \<le> y"
    by simp_all
  have "x * 10 ^ length (rev xs) \<le> 9 * num_of (rev xs) + x"
    using le by (rule repunit_bound)
  then have "x * 10 ^ length xs + num_of xs \<le> num_of (rev xs) * 10 + x"
    using ih by simp
  then show ?case by (simp add: num_of_Cons num_of_snoc)
qed

lemma length_digits4: "length (digits4 m) = 4"
  by (simp add: digits4_def)

lemma digits4_less: "m < 10000 \<Longrightarrow> \<forall>d\<in>set (digits4 m). d < 10"
  by (simp add: digits4_def)

lemma num_of_digits4: "num_of (digits4 m) = m"
proof -
  have a: "m div 100 = m div 10 div 10" "m div 1000 = m div 10 div 10 div 10"
    by (simp_all add: div_mult2_eq [symmetric])
  have "m = m div 10 * 10 + m mod 10"
    "m div 10 = m div 10 div 10 * 10 + m div 10 mod 10"
    "m div 10 div 10 = m div 10 div 10 div 10 * 10 + m div 10 div 10 mod 10"
    by simp_all
  then have "((m div 10 div 10 div 10 * 10 + m div 10 div 10 mod 10) * 10 + m div 10 mod 10) * 10
      + m mod 10 = m"
    by simp
  then show ?thesis
    by (simp add: digits4_def num_of_def a)
qed

text \<open>
  On a number of at most four digits, both sorted strings parse, to the numbers their
  digits denote, and the step is the difference of the two.
\<close>

lemma py_int_sorted:
  assumes "0 \<le> n" "n \<le> 9999"
  shows "py_int (py_sorted (zfill 4 (py_str n))) = Some (int (num_of (sort (digits4 (nat n)))))"
proof -
  let ?ds = "digits4 (nat n)"
  have lt: "\<forall>d\<in>set ?ds. d < 10" using assms by (intro digits4_less) simp
  have "length (sort ?ds) = 4" by (simp add: length_digits4)
  then have ne: "sort ?ds \<noteq> []" by (auto simp del: length_sort)
  have "py_int (map digit_char (sort ?ds)) = Some (int (num_of (sort ?ds)))"
    using lt ne by (intro py_int_digits) simp_all
  then show ?thesis
    by (simp add: zfill_py_str [OF assms] py_sorted_def sort_digit_chars [OF lt])
qed

lemma py_int_sorted_reverse:
  assumes "0 \<le> n" "n \<le> 9999"
  shows "py_int (py_sorted_reverse (zfill 4 (py_str n)))
    = Some (int (num_of (rev (sort (digits4 (nat n))))))"
proof -
  let ?ds = "digits4 (nat n)"
  have lt: "\<forall>d\<in>set ?ds. d < 10" using assms by (intro digits4_less) simp
  have "length (sort ?ds) = 4" by (simp add: length_digits4)
  then have ne: "rev (sort ?ds) \<noteq> []" by (auto simp del: length_sort)
  have "py_int (map digit_char (rev (sort ?ds))) = Some (int (num_of (rev (sort ?ds))))"
    using lt ne by (intro py_int_digits) simp_all
  then show ?thesis
    by (simp add: zfill_py_str [OF assms] py_sorted_reverse_def sort_digit_chars [OF lt] rev_map)
qed

lemma kaprekar_step_digits:
  assumes "0 \<le> n" "n \<le> 9999"
  shows "kaprekar_step n =
    Inr (int (num_of (rev (sort (digits4 (nat n))))) - int (num_of (sort (digits4 (nat n)))))"
  by (simp add: kaprekar_step_def Let_def py_int_sorted [OF assms] py_int_sorted_reverse [OF assms])

lemma sorted_digits_bounds:
  assumes "0 \<le> n" "n \<le> 9999"
  shows "num_of (sort (digits4 (nat n))) \<le> num_of (rev (sort (digits4 (nat n))))"
    and "num_of (rev (sort (digits4 (nat n)))) < 10000"
proof -
  let ?ds = "sort (digits4 (nat n))"
  have lt: "\<forall>d\<in>set (rev ?ds). d < 10"
    using digits4_less [of "nat n"] assms by simp
  have "num_of (rev ?ds) < 10 ^ length (rev ?ds)"
    using lt by (rule num_of_less)
  then show "num_of (rev ?ds) < 10000"
    by (simp add: length_digits4)
  show "num_of ?ds \<le> num_of (rev ?ds)"
    by (rule num_of_sorted_le_rev) simp
qed

lemma kaprekar_step_range:
  assumes "0 \<le> n" "n \<le> 9999"
  shows "\<exists>k. kaprekar_step n = Inr k \<and> 0 \<le> k \<and> k \<le> 9999"
  using kaprekar_step_digits [OF assms] sorted_digits_bounds [OF assms] by simp

lemma kaprekar_step_3524: "kaprekar_step 3524 = Inr 3087"
  by (simp add: kaprekar_step_digits digits4_def num_of_def)

lemma kaprekar_step_3087: "kaprekar_step 3087 = Inr 8352"
  by (simp add: kaprekar_step_digits digits4_def num_of_def)

lemma kaprekar_step_8352: "kaprekar_step 8352 = Inr 6174"
  by (simp add: kaprekar_step_digits digits4_def num_of_def)

lemma kaprekar_step_6174: "kaprekar_step 6174 = Inr 6174"
  by (simp add: kaprekar_step_digits digits4_def num_of_def)

section \<open>The loop\<close>

lemma explore_loop_returns:
  "0 \<le> cur \<Longrightarrow> cur \<le> 9999 \<Longrightarrow> \<exists>res. explore_loop m sq cur st = Inr res"
proof (induction m sq cur st rule: explore_loop.induct)
  case (1 m sq cur st)
  show ?case
  proof (cases "st < m \<and> cur \<noteq> 6174")
    case True
    obtain k where k: "kaprekar_step cur = Inr k" "0 \<le> k" "k \<le> 9999"
      using kaprekar_step_range [OF "1.prems"] by blast
    have "\<exists>res. explore_loop m (sq @ [k]) k (st + 1) = Inr res"
      using "1.IH" [of k] True k by simp
    then show ?thesis
      using True k by (subst explore_loop.simps) simp
  next
    case False
    then show ?thesis
      by (subst explore_loop.simps) auto
  qed
qed

lemma explore_loop_inv:
  assumes "explore_loop m sq cur st = Inr (sq', cur', st')"
    and "sq \<noteq> []" and "last sq = cur"
    and "successively (\<lambda>a b. kaprekar_step a = Inr b) sq"
  shows "\<exists>ext. sq' = sq @ ext \<and> last sq' = cur'
    \<and> successively (\<lambda>a b. kaprekar_step a = Inr b) sq'
    \<and> st' = st + int (length ext)
    \<and> (cur' = 6174 \<or> \<not> st' < m) \<and> (st' \<le> m \<or> st' = st)"
  using assms
proof (induction m sq cur st rule: explore_loop.induct)
  case (1 m sq cur st)
  show ?case
  proof (cases "st < m \<and> cur \<noteq> 6174")
    case False
    then have "explore_loop m sq cur st = Inr (sq, cur, st)"
      by (subst explore_loop.simps) auto
    then have "sq' = sq" "cur' = cur" "st' = st"
      using "1.prems"(1) by simp_all
    then show ?thesis
      using False "1.prems" by auto
  next
    case True
    show ?thesis
    proof (cases "kaprekar_step cur")
      case (Inl e)
      then have "explore_loop m sq cur st = Inl e"
        using True by (subst explore_loop.simps) simp
      then show ?thesis using "1.prems"(1) by simp
    next
      case (Inr k)
      then have eq: "explore_loop m (sq @ [k]) k (st + 1) = Inr (sq', cur', st')"
        using True "1.prems"(1) by (subst (asm) explore_loop.simps) simp
      have chain: "successively (\<lambda>a b. kaprekar_step a = Inr b) (sq @ [k])"
        using "1.prems" Inr by (simp add: successively_append_iff)
      obtain ext where ext: "sq' = (sq @ [k]) @ ext" "last sq' = cur'"
        "successively (\<lambda>a b. kaprekar_step a = Inr b) sq'"
        "st' = st + 1 + int (length ext)"
        "cur' = 6174 \<or> \<not> st' < m" "st' \<le> m \<or> st' = st + 1"
        using "1.IH" [OF _ _ Inr eq _ _ chain] True by auto
      have "sq' = sq @ (k # ext)" "st' = st + int (length (k # ext))" "st' \<le> m"
        using ext True by auto
      then show ?thesis
        using ext by blast
    qed
  qed
qed

lemma explore_kaprekar_props:
  assumes "explore_kaprekar s m = Inr (steps, sq, r)"
  shows "sq \<noteq> []" "hd sq = s"
    "successively (\<lambda>a b. kaprekar_step a = Inr b) sq"
    "steps = int (length sq) - 1" "r \<longleftrightarrow> last sq = 6174"
    "r \<or> \<not> steps < m" "steps \<le> m \<or> steps = 0"
proof -
  obtain cur where loop: "explore_loop m [s] s 0 = Inr (sq, cur, steps)" and r: "r \<longleftrightarrow> cur = 6174"
    using assms by (auto simp: explore_kaprekar_def split: sum.splits)
  obtain ext where ext: "sq = [s] @ ext" "last sq = cur"
    "successively (\<lambda>a b. kaprekar_step a = Inr b) sq"
    "steps = 0 + int (length ext)"
    "cur = 6174 \<or> \<not> steps < m" "steps \<le> m \<or> steps = 0"
    using explore_loop_inv [OF loop] by auto
  show "sq \<noteq> []" "hd sq = s" "successively (\<lambda>a b. kaprekar_step a = Inr b) sq"
    "steps = int (length sq) - 1" "r \<longleftrightarrow> last sq = 6174" "r \<or> \<not> steps < m"
    "steps \<le> m \<or> steps = 0"
    using ext r by auto
qed

lemma explore_kaprekar_returns:
  assumes "0 \<le> s" "s \<le> 9999"
  shows "\<exists>steps sq r. explore_kaprekar s m = Inr (steps, sq, r)"
proof -
  obtain res where "explore_loop m [s] s 0 = Inr res"
    using explore_loop_returns [OF assms] by blast
  then show ?thesis
    by (cases res) (simp add: explore_kaprekar_def)
qed

lemma explore_loop_3524:
  "explore_loop 50 [3524] 3524 0 = Inr ([3524, 3087, 8352, 6174], 6174, 3)"
  by (simp add: explore_loop.simps kaprekar_step_3524 kaprekar_step_3087 kaprekar_step_8352)

lemma explore_loop_6174: "explore_loop 50 [6174] 6174 0 = Inr ([6174], 6174, 0)"
  by (simp add: explore_loop.simps)

lemma explore_loop_3524_limit_2:
  "explore_loop 2 [3524] 3524 0 = Inr ([3524, 3087, 8352], 8352, 2)"
  by (simp add: explore_loop.simps kaprekar_step_3524 kaprekar_step_3087)

text \<open>
  The engine is not total on all integers: the text of a negative number carries its sign,
  the descending sort moves the sign to the end, and \<^verbatim>\<open>int()\<close> rejects the result.
  Statements about what a run returns are therefore about the runs that return.
\<close>

lemma kaprekar_step_negative: "kaprekar_step (- 5) = Inl ValueError"
  by code_simp

lemma explore_negative: "explore_kaprekar (- 5) 1 = Inl ValueError"
  by (simp add: explore_kaprekar_def explore_loop.simps kaprekar_step_negative)

section \<open>The validator's checks\<close>

lemma py_int_py_str:
  assumes "1000 \<le> v" "v \<le> 9999"
  shows "py_int (py_str v) = Some v"
proof -
  let ?m = "nat v"
  have m: "1000 \<le> ?m" "?m < 10000" using assms by simp_all
  have lt: "\<forall>d\<in>set (digits4 ?m). d < 10" using m(2) by (rule digits4_less)
  have "length (digits4 ?m) = 4" by (rule length_digits4)
  then have ne: "digits4 ?m \<noteq> []" by auto
  have "py_str v = map digit_char (digits4 ?m)"
    using assms(1) str_nat_4digits [OF m] by (simp add: py_str_def)
  then show ?thesis
    using py_int_digits [OF lt ne] assms(1) by (simp add: num_of_digits4)
qed

lemma card_digit_chars:
  assumes "0 \<le> v" "v \<le> 9999"
  shows "card (set (zfill 4 (py_str v))) = 4 \<longleftrightarrow> distinct (digits4 (nat v))"
proof -
  let ?ds = "digits4 (nat v)"
  let ?cs = "map digit_char ?ds"
  have "set ?ds \<subseteq> {..<10}"
    using digits4_less [of "nat v"] assms by auto
  then have "inj_on digit_char (set ?ds)"
    using inj_on_digit_char by (rule inj_on_subset [rotated])
  then have d: "distinct ?cs \<longleftrightarrow> distinct ?ds"
    by (simp add: distinct_map)
  have len: "length ?cs = 4" by (simp add: length_digits4)
  have "card (set ?cs) = length ?cs \<longleftrightarrow> distinct ?cs"
    using distinct_card [of ?cs] card_distinct [of ?cs] by blast
  then show ?thesis
    by (simp only: zfill_py_str [OF assms] len d)
qed

lemma validate_input_in_range:
  assumes "py_int s = Some v" "1000 \<le> v" "v \<le> 9999"
  shows "validate_input s =
    (if distinct (digits4 (nat v)) then (True, None, Some v) else (False, Some RepeatedDigits, None))"
proof -
  have "0 \<le> v" using assms(2) by simp
  then have "card (set (zfill 4 (py_str v))) = 4 \<longleftrightarrow> distinct (digits4 (nat v))"
    using assms(3) by (rule card_digit_chars)
  then show ?thesis
    using assms by (simp add: validate_input_def Let_def)
qed

lemma validate_input_accepted:
  assumes "validate_input s = (True, None, Some v)"
  shows "1000 \<le> v" "v \<le> 9999"
  using assms by (auto simp: validate_input_def Let_def split: option.splits if_splits)

lemma error_messages_distinct: "distinct [NotANumber, WrongDigitCount, RepeatedDigits]"
  by (simp add: NotANumber_def WrongDigitCount_def RepeatedDigits_def)

lemma py_int_12a4: "py_int ''12a4'' = None"
  by code_simp

lemma py_int_11111: "py_int ''11111'' = Some 11111"
  by code_simp

lemma py_int_1224: "py_int ''1224'' = Some 1224"
  by code_simp

lemma validate_input_3524: "validate_input ''3524'' = (True, None, Some 3524)"
  by code_simp

section \<open>The claims\<close>

text \<open>
  In the result of \<^const>\<open>explore_kaprekar\<close> the outcome is the boolean
  \<^verbatim>\<open>reached_constant\<close>: \<open>True\<close> is Converged and \<open>False\<close> is StepLimitReached.
\<close>

text \<open>
  C1, as the code runs it: from 3524 with at most 50 steps the engine converges to 6174
  in exactly 3 steps, and the returned sequence is 3524, 3087, 8352, 6174.
\<close>

theorem explore_3524:
  "explore_kaprekar 3524 50 = Inr (3, [3524, 3087, 8352, 6174], True)"
  by (simp add: explore_kaprekar_def explore_loop_3524)

text \<open>
  C1, as stated, fails: the run from 3524 returns, but its step count is not 5 and its
  sequence is not 3524, 3087, 8352, 8532, 6174. The number 8532 is the descending
  arrangement of the digits of 8352, not an element of the sequence.
\<close>

theorem explore_3524_not_five_steps:
  "\<not> isl (explore_kaprekar 3524 50)
   \<and> fst (projr (explore_kaprekar 3524 50)) \<noteq> 5
   \<and> fst (snd (projr (explore_kaprekar 3524 50))) \<noteq> [3524, 3087, 8352, 8532, 6174]"
  by (simp add: explore_kaprekar_def explore_loop_3524)

text \<open>
  C2: the validator answers NotANumber when the text does not parse as an integer,
  WrongDigitCount when it parses to a value below 1000 or above 9999, whatever its digits,
  and RepeatedDigits when it parses to a value from 1000 to 9999 with a repeated decimal
  digit. The three answers are different messages, so the first failing check decides.
\<close>

theorem validate_input_errors:
  "(py_int s = None \<longrightarrow> validate_input s = (False, Some NotANumber, None))
   \<and> (py_int s = Some v \<and> (v < 1000 \<or> 9999 < v) \<longrightarrow>
        validate_input s = (False, Some WrongDigitCount, None))
   \<and> (py_int s = Some v \<and> 1000 \<le> v \<and> v \<le> 9999 \<and> \<not> distinct (digits4 (nat v)) \<longrightarrow>
        validate_input s = (False, Some RepeatedDigits, None))
   \<and> distinct [NotANumber, WrongDigitCount, RepeatedDigits]"
proof (intro conjI impI)
  assume "py_int s = None"
  then show "validate_input s = (False, Some NotANumber, None)"
    by (simp add: validate_input_def)
next
  assume "py_int s = Some v \<and> (v < 1000 \<or> 9999 < v)"
  then show "validate_input s = (False, Some WrongDigitCount, None)"
    by (auto simp: validate_input_def)
next
  assume "py_int s = Some v \<and> 1000 \<le> v \<and> v \<le> 9999 \<and> \<not> distinct (digits4 (nat v))"
  then show "validate_input s = (False, Some RepeatedDigits, None)"
    by (simp add: validate_input_in_range)
next
  show "distinct [NotANumber, WrongDigitCount, RepeatedDigits]"
    by (rule error_messages_distinct)
qed

theorem validate_input_errors_witness:
  "py_int ''12a4'' = None
   \<and> validate_input ''12a4'' = (False, Some NotANumber, None)
   \<and> py_int ''11111'' = Some 11111
   \<and> validate_input ''11111'' = (False, Some WrongDigitCount, None)
   \<and> py_int ''1224'' = Some 1224
   \<and> validate_input ''1224'' = (False, Some RepeatedDigits, None)"
proof -
  have r: "\<not> distinct (digits4 (nat 1224))"
    by (simp add: digits4_def)
  show ?thesis
    using validate_input_errors [of "''12a4''" 0] validate_input_errors [of "''11111''" 11111]
      validate_input_errors [of "''1224''" 1224] r
    by (simp add: py_int_12a4 py_int_11111 py_int_1224)
qed

text \<open>
  C3: for every integer from 1000 to 9999 whose four decimal digits are pairwise distinct,
  the validator accepts its decimal text and returns the integer itself.
\<close>

theorem validate_input_accepts:
  assumes "1000 \<le> v" "v \<le> 9999" "distinct (digits4 (nat v))"
  shows "validate_input (py_str v) = (True, None, Some v)"
  using validate_input_in_range [OF py_int_py_str [OF assms(1,2)] assms(1,2)] assms(3)
  by simp

theorem validate_input_accepts_witness:
  "(1000::int) \<le> 3524 \<and> (3524::int) \<le> 9999 \<and> distinct (digits4 (nat 3524))
   \<and> validate_input (py_str 3524) = (True, None, Some 3524)"
proof -
  have d: "distinct (digits4 (nat 3524))"
    by (simp add: digits4_def)
  show ?thesis
    using validate_input_accepts [of 3524] d by simp
qed

text \<open>
  C4: from 6174 with at most 50 steps the engine returns the sequence 6174 alone, the
  outcome Converged and 0 steps.
\<close>

theorem explore_6174:
  "explore_kaprekar 6174 50 = Inr (0, [6174], True)"
  by (simp add: explore_kaprekar_def explore_loop_6174)

text \<open>
  C5: whatever a run returns, the sequence begins with the starting number, each later
  element is the step applied to the element before it, and the step count is the length
  of the sequence minus one. A run from a number of at most four digits does return.
\<close>

theorem explore_sequence:
  "(\<forall>steps sq r. explore_kaprekar s m = Inr (steps, sq, r) \<longrightarrow>
      sq \<noteq> [] \<and> hd sq = s
      \<and> (\<forall>i. Suc i < length sq \<longrightarrow> kaprekar_step (sq ! i) = Inr (sq ! Suc i))
      \<and> steps = int (length sq) - 1)
   \<and> (0 \<le> s \<and> s \<le> 9999 \<longrightarrow> (\<exists>steps sq r. explore_kaprekar s m = Inr (steps, sq, r)))"
proof (intro conjI allI impI)
  fix steps sq r
  assume run: "explore_kaprekar s m = Inr (steps, sq, r)"
  show "sq \<noteq> []" "hd sq = s" "steps = int (length sq) - 1"
    using explore_kaprekar_props [OF run] by simp_all
  fix i
  assume "Suc i < length sq"
  then show "kaprekar_step (sq ! i) = Inr (sq ! Suc i)"
    using explore_kaprekar_props(3) [OF run] by (simp add: successively_conv_nth)
next
  assume "0 \<le> s \<and> s \<le> 9999"
  then show "\<exists>steps sq r. explore_kaprekar s m = Inr (steps, sq, r)"
    by (simp add: explore_kaprekar_returns)
qed

theorem explore_sequence_witness:
  "explore_kaprekar 3524 50 = Inr (3, [3524, 3087, 8352, 6174], True)
   \<and> hd [3524, 3087, 8352, 6174] = (3524::int)
   \<and> kaprekar_step 3524 = Inr 3087
   \<and> kaprekar_step 3087 = Inr 8352
   \<and> kaprekar_step 8352 = Inr 6174
   \<and> (3::int) = int (length [3524, 3087, 8352, 6174::int]) - 1"
proof -
  let ?L = "[3524, 3087, 8352, 6174::int]"
  have run: "explore_kaprekar 3524 50 = Inr (3, ?L, True)"
    by (simp add: explore_kaprekar_def explore_loop_3524)
  have range: "(0::int) \<le> 3524 \<and> (3524::int) \<le> 9999"
    by simp
  have ret: "\<exists>steps sq r. explore_kaprekar 3524 50 = Inr (steps, sq, r)"
    using explore_sequence [of 3524 50] range by blast
  have "?L \<noteq> [] \<and> hd ?L = 3524
      \<and> (\<forall>i. Suc i < length ?L \<longrightarrow> kaprekar_step (?L ! i) = Inr (?L ! Suc i))
      \<and> 3 = int (length ?L) - 1"
    using explore_sequence [of 3524 50] run by blast
  then have chain: "\<forall>i. Suc i < length ?L \<longrightarrow> kaprekar_step (?L ! i) = Inr (?L ! Suc i)"
    and first: "hd ?L = 3524" and len: "3 = int (length ?L) - 1"
    by blast+
  have k0: "kaprekar_step 3524 = Inr 3087"
    using chain [rule_format, of 0] by simp
  have k1: "kaprekar_step 3087 = Inr 8352"
    using chain [rule_format, of 1] by simp
  have k2: "kaprekar_step 8352 = Inr 6174"
    using chain [rule_format, of 2] by simp
  show ?thesis
    using ret run first k0 k1 k2 len by blast
qed

text \<open>
  C6: whatever a run returns, its outcome is Converged exactly when the last element of
  the sequence is 6174, and StepLimitReached otherwise. A run from a number of at most
  four digits does return.
\<close>

theorem explore_outcome:
  "(\<forall>steps sq r. explore_kaprekar s m = Inr (steps, sq, r) \<longrightarrow> (r \<longleftrightarrow> last sq = 6174))
   \<and> (0 \<le> s \<and> s \<le> 9999 \<longrightarrow>
        (\<exists>steps sq. explore_kaprekar s m = Inr (steps, sq, last sq = 6174)))"
proof (intro conjI allI impI)
  fix steps sq r
  assume "explore_kaprekar s m = Inr (steps, sq, r)"
  then show "r \<longleftrightarrow> last sq = 6174"
    by (rule explore_kaprekar_props(5))
next
  assume "0 \<le> s \<and> s \<le> 9999"
  then obtain steps sq r where run: "explore_kaprekar s m = Inr (steps, sq, r)"
    using explore_kaprekar_returns [of s m] by blast
  then have "r \<longleftrightarrow> last sq = 6174"
    by (rule explore_kaprekar_props(5))
  then show "\<exists>steps sq. explore_kaprekar s m = Inr (steps, sq, last sq = 6174)"
    using run by auto
qed

theorem explore_outcome_witness:
  "explore_kaprekar 3524 50 = Inr (3, [3524, 3087, 8352, 6174], True)
   \<and> last [3524, 3087, 8352, 6174] = (6174::int)
   \<and> explore_kaprekar 3524 2 = Inr (2, [3524, 3087, 8352], False)
   \<and> last [3524, 3087, 8352] \<noteq> (6174::int)"
proof -
  have a: "explore_kaprekar 3524 50 = Inr (3, [3524, 3087, 8352, 6174], True)"
    by (simp add: explore_kaprekar_def explore_loop_3524)
  have b: "explore_kaprekar 3524 2 = Inr (2, [3524, 3087, 8352], False)"
    by (simp add: explore_kaprekar_def explore_loop_3524_limit_2)
  have range: "(0::int) \<le> 3524 \<and> (3524::int) \<le> 9999"
    by simp
  note explore_outcome [of 3524 50, THEN conjunct1, rule_format, OF a]
    explore_outcome [of 3524 2, THEN conjunct1, rule_format, OF b]
    explore_outcome [of 3524 50, THEN conjunct2, rule_format, OF range]
  then show ?thesis
    using a b by simp
qed

text \<open>
  C7: 6174 is a fixed point of the step: its digits in descending order read 7641, in
  ascending order 1467, and the step from 6174 gives 6174.
\<close>

theorem kaprekar_step_fixed_point:
  "py_int (py_sorted_reverse (zfill 4 (py_str 6174))) = Some 7641
   \<and> py_int (py_sorted (zfill 4 (py_str 6174))) = Some 1467
   \<and> kaprekar_step 6174 = Inr 6174"
  by (simp add: py_int_sorted py_int_sorted_reverse kaprekar_step_6174 digits4_def num_of_def)

text \<open>
  C8: with a step limit of 0 and a start other than 6174, the engine returns the outcome
  StepLimitReached, the sequence of the start alone and 0 steps.
\<close>

theorem explore_zero_limit:
  "s \<noteq> 6174 \<Longrightarrow> explore_kaprekar s 0 = Inr (0, [s], False)"
  by (simp add: explore_kaprekar_def explore_loop.simps)

theorem explore_zero_limit_witness:
  "(1234::int) \<noteq> 6174 \<and> explore_kaprekar 1234 0 = Inr (0, [1234], False)"
  using explore_zero_limit [of 1234] by simp

text \<open>
  C9: for every number the validator accepts and every step limit that is not negative,
  the engine returns a result and raises nothing; the step count is at most the limit, and
  the sequence has at most one element more than the limit.
\<close>

theorem explore_terminates:
  assumes "validate_input txt = (True, None, Some s)" and "0 \<le> m"
  shows "\<exists>steps sq r. explore_kaprekar s m = Inr (steps, sq, r)
    \<and> steps \<le> m \<and> int (length sq) \<le> m + 1"
proof -
  have "0 \<le> s" "s \<le> 9999"
    using validate_input_accepted [OF assms(1)] by simp_all
  then obtain steps sq r where run: "explore_kaprekar s m = Inr (steps, sq, r)"
    using explore_kaprekar_returns [of s m] by blast
  have "steps = int (length sq) - 1" "steps \<le> m \<or> steps = 0"
    using explore_kaprekar_props [OF run] by simp_all
  then have "steps \<le> m \<and> int (length sq) \<le> m + 1"
    using assms(2) by auto
  then show ?thesis
    using run by blast
qed

theorem explore_terminates_witness:
  "validate_input ''3524'' = (True, None, Some 3524) \<and> (0::int) \<le> 50
   \<and> (\<exists>steps sq r. explore_kaprekar 3524 50 = Inr (steps, sq, r)
        \<and> steps \<le> 50 \<and> int (length sq) \<le> 50 + 1)"
proof -
  have m: "(0::int) \<le> 50" by simp
  show ?thesis
    using explore_terminates [OF validate_input_3524 m] validate_input_3524 by simp
qed

text \<open>
  C10: for every integer from 0 to 9999, both sorted digit strings parse, the descending
  value is not smaller than the ascending one, and the step returns their difference,
  which lies from 0 to 9999 again.
\<close>

theorem kaprekar_step_in_range:
  assumes "0 \<le> n" "n \<le> 9999"
  shows "\<exists>A B. py_int (py_sorted_reverse (zfill 4 (py_str n))) = Some A
    \<and> py_int (py_sorted (zfill 4 (py_str n))) = Some B
    \<and> B \<le> A \<and> kaprekar_step n = Inr (A - B) \<and> 0 \<le> A - B \<and> A - B \<le> 9999"
  using py_int_sorted [OF assms] py_int_sorted_reverse [OF assms] kaprekar_step_digits [OF assms]
    sorted_digits_bounds [OF assms]
  by simp

theorem kaprekar_step_in_range_witness:
  "(0::int) \<le> 999 \<and> (999::int) \<le> 9999
   \<and> (\<exists>A B. py_int (py_sorted_reverse (zfill 4 (py_str 999))) = Some A
        \<and> py_int (py_sorted (zfill 4 (py_str 999))) = Some B
        \<and> B \<le> A \<and> kaprekar_step 999 = Inr (A - B) \<and> 0 \<le> A - B \<and> A - B \<le> 9999)"
  using kaprekar_step_in_range [of 999] by simp

end
